theory Spec2Isabelle
  imports Complex_Main
begin

section \<open>Errors raised by the modelled functions\<close>

text \<open>
  The Python functions of \<^verbatim>\<open>scvelo/tools/utils.py\<close> raise exceptions; the model returns
  them as values of a sum type, \<open>Inl\<close> carrying the exception.
\<close>

datatype error = ValueError | IndexError


section \<open>\<^verbatim>\<open>get_iterative_indices\<close>\<close>

text \<open>
  \<^verbatim>\<open>
  def get_iterative_indices(indices, index, n_recurse_neighbors=2, max_neighs=None):
      def iterate_indices(indices, index, n_recurse_neighbors):
          if n_recurse_neighbors > 1:
              index = iterate_indices(indices, index, n_recurse_neighbors - 1)
          ix = np.append(index, indices[index])  # direct and indirect neighbors
          if np.isnan(ix).any():
              ix = ix[~np.isnan(ix)]
          return ix.astype(int)

      indices = np.unique(iterate_indices(indices, index, n_recurse_neighbors))
      if max_neighs is not None and len(indices) > max_neighs:
          indices = np.random.choice(indices, max_neighs, replace=False)
      return indices
  \<close>
  The neighbor table is a two-dimensional array: the list of its rows. An entry is a cell
  index or the sentinel \<^verbatim>\<open>NaN\<close>, here \<open>None\<close>. The seed and the depth are Python integers.
  Indexing the table follows numpy: an index \<open>i\<close> with \<open>-n \<le> i < n\<close>, for \<open>n\<close> rows, reads a
  row (a negative one counts from the end), any other raises \<^verbatim>\<open>IndexError\<close>.
  \<^verbatim>\<open>indices[index]\<close> with an array of indices reads all their rows, and \<^verbatim>\<open>np.append\<close>
  flattens them behind \<^verbatim>\<open>index\<close>.
\<close>

type_synonym index_table = "int option list list"

definition valid_index :: "'a list \<Rightarrow> int \<Rightarrow> bool" where
  "valid_index xs i = (- int (length xs) \<le> i \<and> i < int (length xs))"

definition py_index :: "'a list \<Rightarrow> int \<Rightarrow> error + 'a" where
  "py_index xs i =
     (if valid_index xs i
      then Inr (xs ! nat (if i < 0 then i + int (length xs) else i))
      else Inl IndexError)"

fun rows_at :: "index_table \<Rightarrow> int list \<Rightarrow> error + int option list list" where
  "rows_at indices [] = Inr []"
| "rows_at indices (i # idx) =
     (case py_index indices i of
        Inl e \<Rightarrow> Inl e
      | Inr row \<Rightarrow>
          (case rows_at indices idx of
             Inl e \<Rightarrow> Inl e
           | Inr rows \<Rightarrow> Inr (row # rows)))"

definition drop_nan :: "int option list \<Rightarrow> int list" where
  "drop_nan ix = List.map_filter (\<lambda>x. x) ix"

function iterate_indices :: "index_table \<Rightarrow> int \<Rightarrow> int \<Rightarrow> error + int list" where
  "iterate_indices indices index n_recurse_neighbors =
     (case (if n_recurse_neighbors > 1
            then iterate_indices indices index (n_recurse_neighbors - 1)
            else Inr [index]) of
        Inl e \<Rightarrow> Inl e
      | Inr idx \<Rightarrow>
          (case rows_at indices idx of
             Inl e \<Rightarrow> Inl e
           | Inr rows \<Rightarrow> Inr (drop_nan (map Some idx @ concat rows))))"
  by pat_completeness auto
termination
  by (relation "measure (\<lambda>(indices, index, n). nat n)") auto

declare iterate_indices.simps [simp del]

text \<open>
  \<^verbatim>\<open>np.unique\<close> returns the distinct values in increasing order.
  \<^verbatim>\<open>np.random.choice(a, size, replace=False)\<close> draws a random permutation of the positions
  of \<^verbatim>\<open>a\<close> and returns the values at its first \<^verbatim>\<open>size\<close> positions. The draw is the one
  effect of the function; the model takes the generator as an argument, \<open>permutation n\<close>
  being the permutation it draws for a population of \<open>n\<close>. The cap \<^verbatim>\<open>max_neighs\<close> is a count,
  a natural number, or \<^verbatim>\<open>None\<close>.
\<close>

definition unique :: "int list \<Rightarrow> int list" where
  "unique xs = sort (remdups xs)"

definition choice :: "int list \<Rightarrow> nat \<Rightarrow> nat list \<Rightarrow> int list" where
  "choice a k perm = map (\<lambda>i. a ! i) (take k perm)"

definition get_iterative_indices ::
  "index_table \<Rightarrow> int \<Rightarrow> int \<Rightarrow> nat option \<Rightarrow> (nat \<Rightarrow> nat list) \<Rightarrow> error + int list" where
  "get_iterative_indices indices index n_recurse_neighbors max_neighs permutation =
     (case iterate_indices indices index n_recurse_neighbors of
        Inl e \<Rightarrow> Inl e
      | Inr ix \<Rightarrow>
          (let indices = unique ix in
           case max_neighs of
             None \<Rightarrow> Inr indices
           | Some m \<Rightarrow>
               if length indices > m
               then Inr (choice indices m (permutation (length indices)))
               else Inr indices))"

text \<open>
  What the theorems ask of their inputs: \<open>is_permutation p n\<close>, that \<open>p\<close> lists every position
  below \<open>n\<close> once, and \<open>valid_table\<close>, that every entry of the table other than the
  sentinel indexes a row of the table.
\<close>

definition is_permutation :: "nat list \<Rightarrow> nat \<Rightarrow> bool" where
  "is_permutation perm n = (sort perm = [0..<n])"

definition valid_table :: "index_table \<Rightarrow> bool" where
  "valid_table indices =
     list_all (list_all (\<lambda>e. case e of None \<Rightarrow> True | Some j \<Rightarrow> valid_index indices j)) indices"

definition identity_permutation :: "nat \<Rightarrow> nat list" where
  "identity_permutation n = [0..<n]"

definition reverse_permutation :: "nat \<Rightarrow> nat list" where
  "reverse_permutation n = rev [0..<n]"

lemma set_drop_nan: "set (drop_nan ix) = {j. Some j \<in> set ix}"
  by (force simp: drop_nan_def map_filter_def)

lemma set_unique: "set (unique xs) = set xs"
  by (simp add: unique_def)

lemma distinct_unique: "distinct (unique xs)"
  by (simp add: unique_def)

lemma sorted_unique: "sorted_wrt (<) (unique xs)"
  using strict_sorted_iff [of "unique xs"] by (simp add: unique_def)

lemma rows_at_Inr_valid:
  "rows_at indices idx = Inr rows \<Longrightarrow> list_all (valid_index indices) idx"
  by (induction idx arbitrary: rows)
     (auto simp: py_index_def split: sum.splits if_splits)

lemma rows_at_valid:
  "list_all (valid_index indices) idx \<Longrightarrow> \<exists>rows. rows_at indices idx = Inr rows"
  by (induction idx) (auto simp: py_index_def)

lemma rows_at_entries:
  "rows_at indices idx = Inr rows \<Longrightarrow> set rows \<subseteq> set indices"
proof (induction idx arbitrary: rows)
  case Nil
  then show ?case by simp
next
  case (Cons i idx)
  from Cons.prems obtain row rest where r: "py_index indices i = Inr row"
      "rows_at indices idx = Inr rest" "rows = row # rest"
    by (auto split: sum.splits)
  from r(1) have "valid_index indices i"
            and row: "row = indices ! nat (if i < 0 then i + int (length indices) else i)"
    by (auto simp: py_index_def split: if_splits)
  then have "nat (if i < 0 then i + int (length indices) else i) < length indices"
    by (auto simp: valid_index_def)
  then have "row \<in> set indices" unfolding row by (rule nth_mem)
  with Cons.IH [OF r(2)] r(3) show ?case by simp
qed

lemma iterate_indices_seed:
  "iterate_indices indices index n = Inr ix \<Longrightarrow> index \<in> set ix"
proof (induction indices index n arbitrary: ix rule: iterate_indices.induct)
  case (1 indices index n)
  show ?case
  proof (cases "n > 1")
    case True
    with "1.prems" obtain idx rows where
      a: "iterate_indices indices index (n - 1) = Inr idx"
         "ix = drop_nan (map Some idx @ concat rows)"
      by (subst (asm) iterate_indices.simps) (auto split: sum.splits)
    from "1.IH" [OF True a(1)] a(2) show ?thesis
      by (auto simp: set_drop_nan)
  next
    case False
    with "1.prems" show ?thesis
      by (subst (asm) iterate_indices.simps) (auto simp: set_drop_nan split: sum.splits)
  qed
qed

lemma iterate_indices_step:
  assumes "1 < n" and "iterate_indices indices index n = Inr ix"
  shows "\<exists>idx. iterate_indices indices index (n - 1) = Inr idx \<and> set idx \<subseteq> set ix"
proof -
  from assms obtain idx rows where
    a: "iterate_indices indices index (n - 1) = Inr idx"
       "ix = drop_nan (map Some idx @ concat rows)"
    by (subst (asm) iterate_indices.simps) (auto split: sum.splits)
  then show ?thesis by (auto simp: set_drop_nan)
qed

lemma valid_table_entry:
  "valid_table indices \<Longrightarrow> row \<in> set indices \<Longrightarrow> Some j \<in> set row \<Longrightarrow>
     valid_index indices j"
  by (auto simp: valid_table_def list_all_iff split: option.splits)

lemma iterate_indices_total:
  "valid_table indices \<Longrightarrow> valid_index indices index \<Longrightarrow>
     \<exists>ix. iterate_indices indices index n = Inr ix \<and> list_all (valid_index indices) ix"
proof (induction indices index n rule: iterate_indices.induct)
  case (1 indices index n)
  have "\<exists>idx. (if n > 1 then iterate_indices indices index (n - 1) else Inr [index]) = Inr idx
           \<and> list_all (valid_index indices) idx"
  proof (cases "n > 1")
    case True
    with "1.IH" [OF True "1.prems"] show ?thesis by simp
  next
    case False
    with "1.prems" show ?thesis by simp
  qed
  then obtain idx where idx:
    "(if n > 1 then iterate_indices indices index (n - 1) else Inr [index]) = Inr idx"
    "list_all (valid_index indices) idx"
    by blast
  from rows_at_valid [OF idx(2)] obtain rows where rows: "rows_at indices idx = Inr rows"
    by blast
  have res: "iterate_indices indices index n = Inr (drop_nan (map Some idx @ concat rows))"
    using idx(1) rows by (subst iterate_indices.simps) (simp del: iterate_indices.simps)
  have "valid_index indices j" if "j \<in> set (drop_nan (map Some idx @ concat rows))" for j
  proof -
    from that have "j \<in> set idx \<or> (\<exists>row \<in> set rows. Some j \<in> set row)"
      by (auto simp: set_drop_nan)
    then show ?thesis
    proof
      assume "j \<in> set idx"
      with idx(2) show ?thesis by (simp add: list_all_iff)
    next
      assume "\<exists>row \<in> set rows. Some j \<in> set row"
      then obtain row where "row \<in> set rows" "Some j \<in> set row" by blast
      with rows_at_entries [OF rows] have "row \<in> set indices" by blast
      with \<open>Some j \<in> set row\<close> "1.prems"(1) show ?thesis
        by (blast intro: valid_table_entry)
    qed
  qed
  with res show ?case by (simp add: list_all_iff)
qed

lemma get_iterative_indices_uncapped:
  "get_iterative_indices indices index n None permutation =
     (case iterate_indices indices index n of Inl e \<Rightarrow> Inl e | Inr ix \<Rightarrow> Inr (unique ix))"
  by (simp add: get_iterative_indices_def split: sum.splits)

text \<open>
  Claim C4. For every table, seed and depth \<open>d > 1\<close>, the uncapped result at depth \<open>d\<close>
  contains the uncapped result at depth \<open>d - 1\<close>: whenever the call at depth \<open>d\<close> returns,
  so does the call at depth \<open>d - 1\<close>, with a subset; and both return when the table's
  entries and the seed index rows of the table.
\<close>

theorem closure_monotone:
  assumes "1 < d"
  shows "(\<forall>r. get_iterative_indices indices index d None permutation = Inr r \<longrightarrow>
            (\<exists>r'. get_iterative_indices indices index (d - 1) None permutation = Inr r'
                 \<and> set r' \<subseteq> set r))
       \<and> (valid_table indices \<and> valid_index indices index \<longrightarrow>
            (\<exists>r r'. get_iterative_indices indices index d None permutation = Inr r
                 \<and> get_iterative_indices indices index (d - 1) None permutation = Inr r'
                 \<and> set r' \<subseteq> set r))"
proof -
  have mono: "\<exists>r'. get_iterative_indices indices index (d - 1) None permutation = Inr r'
                 \<and> set r' \<subseteq> set r"
    if "get_iterative_indices indices index d None permutation = Inr r" for r
  proof -
    from that obtain ix where ix: "iterate_indices indices index d = Inr ix" "r = unique ix"
      by (auto simp: get_iterative_indices_uncapped split: sum.splits)
    from iterate_indices_step [OF assms ix(1)] obtain idx where
      "iterate_indices indices index (d - 1) = Inr idx" "set idx \<subseteq> set ix"
      by blast
    then show ?thesis
      using ix(2) by (simp add: get_iterative_indices_uncapped set_unique)
  qed
  have total: "\<exists>r. get_iterative_indices indices index d None permutation = Inr r"
    if "valid_table indices" "valid_index indices index"
    using iterate_indices_total [OF that, of d]
    by (auto simp: get_iterative_indices_uncapped)
  show ?thesis using mono total by blast
qed

text \<open>
  Claim C9. For every table, seed and depth, the uncapped result is strictly increasing,
  has no duplicates and contains the seed; the call returns when the table's entries and
  the seed index rows of the table.
\<close>

theorem closure_sorted_with_seed:
  "(\<forall>r. get_iterative_indices indices index n None permutation = Inr r \<longrightarrow>
      sorted_wrt (<) r \<and> distinct r \<and> index \<in> set r)
   \<and> (valid_table indices \<and> valid_index indices index \<longrightarrow>
        (\<exists>r. get_iterative_indices indices index n None permutation = Inr r))"
proof -
  have props: "sorted_wrt (<) r \<and> distinct r \<and> index \<in> set r"
    if "get_iterative_indices indices index n None permutation = Inr r" for r
  proof -
    from that obtain ix where ix: "iterate_indices indices index n = Inr ix" "r = unique ix"
      by (auto simp: get_iterative_indices_uncapped split: sum.splits)
    from iterate_indices_seed [OF ix(1)] ix(2) show ?thesis
      by (simp add: sorted_unique distinct_unique set_unique)
  qed
  have total: "\<exists>r. get_iterative_indices indices index n None permutation = Inr r"
    if "valid_table indices" "valid_index indices index"
    using iterate_indices_total [OF that, of n]
    by (auto simp: get_iterative_indices_uncapped)
  show ?thesis using props total by blast
qed

theorem closure_monotone_witness:
  "(1::int) < 2
   \<and> valid_table [[Some 1, None], [Some 2, None], [Some 3, Some 1], [Some 0, Some 1]]
   \<and> valid_index [[Some 1, None], [Some 2, None], [Some 3, Some 1], [Some 0, Some (1::int)]] 0
   \<and> get_iterative_indices [[Some 1, None], [Some 2, None], [Some 3, Some 1], [Some 0, Some 1]]
          0 2 None identity_permutation = Inr [0, 1, 2]
   \<and> get_iterative_indices [[Some 1, None], [Some 2, None], [Some 3, Some 1], [Some 0, Some 1]]
          0 (2 - 1) None identity_permutation = Inr [0, 1]
   \<and> set [0, 1] \<subseteq> set [0, 1, 2 :: int]"
  using closure_monotone
    [of 2 "[[Some 1, None], [Some 2, None], [Some 3, Some 1], [Some 0, Some 1]]" 0
        identity_permutation]
  by (simp add: get_iterative_indices_def iterate_indices.simps py_index_def valid_index_def
      valid_table_def drop_nan_def unique_def)

theorem closure_sorted_with_seed_witness:
  "valid_table [[Some 1, None], [Some 2, None], [Some 3, Some 1], [Some 0, Some 1]]
   \<and> valid_index [[Some 1, None], [Some 2, None], [Some 3, Some 1], [Some 0, Some (1::int)]] 3
   \<and> get_iterative_indices [[Some 1, None], [Some 2, None], [Some 3, Some 1], [Some 0, Some 1]]
          3 2 None identity_permutation = Inr [0, 1, 2, 3]
   \<and> sorted_wrt (<) [0, 1, 2, 3 :: int] \<and> distinct [0, 1, 2, 3 :: int]
   \<and> (3::int) \<in> set [0, 1, 2, 3]"
  using closure_sorted_with_seed
    [of "[[Some 1, None], [Some 2, None], [Some 3, Some 1], [Some 0, Some 1]]" 3 2
        identity_permutation]
  by (simp add: get_iterative_indices_def iterate_indices.simps py_index_def valid_index_def
      valid_table_def drop_nan_def unique_def)

text \<open>
  Claim C5 states that depth 1 without a cap returns exactly the seed's direct neighbors.
  On the table \<open>[[1, 2], [0, 2], [0, 1]]\<close> with seed \<open>0\<close> the function returns \<open>[0, 1, 2]\<close>:
  the seed \<open>0\<close> is in the result and is not one of the entries \<open>1, 2\<close> of its row.
\<close>

theorem depth_one_counterexample:
  "get_iterative_indices [[Some 1, Some 2], [Some 0, Some 2], [Some 0, Some 1]]
      0 1 None identity_permutation = Inr [0, 1, 2]
   \<and> py_index [[Some 1, Some 2], [Some 0, Some 2], [Some 0, Some (1::int)]] 0
        = Inr [Some 1, Some 2]
   \<and> (0::int) \<in> set [0, 1, 2] \<and> (0::int) \<notin> set (drop_nan [Some 1, Some 2])"
  by (simp add: get_iterative_indices_def iterate_indices.simps py_index_def valid_index_def
      drop_nan_def unique_def)

text \<open>
  Claim C5, amended. For every table and every seed that indexes a row of it, depth 1
  without a cap returns exactly the seed together with the entries of the seed's row,
  sentinels removed, in increasing order without duplicates.
\<close>

theorem depth_one_seed_and_neighbors:
  assumes "py_index indices index = Inr row"
  shows "\<exists>r. get_iterative_indices indices index 1 None permutation = Inr r
           \<and> set r = insert index (set (drop_nan row))
           \<and> sorted_wrt (<) r \<and> distinct r"
proof -
  have "iterate_indices indices index 1 = Inr (drop_nan (Some index # row))"
    using assms by (subst iterate_indices.simps) simp
  then have "get_iterative_indices indices index 1 None permutation
               = Inr (unique (drop_nan (Some index # row)))"
    by (simp add: get_iterative_indices_uncapped)
  moreover have "set (unique (drop_nan (Some index # row))) = insert index (set (drop_nan row))"
    by (auto simp: set_unique set_drop_nan)
  ultimately show ?thesis
    by (simp add: sorted_unique distinct_unique)
qed

theorem depth_one_seed_and_neighbors_witness:
  "py_index [[Some 1, None], [Some 2, None], [Some 3, Some 1], [Some 0, Some (1::int)]] 2
     = Inr [Some 3, Some 1]
   \<and> get_iterative_indices [[Some 1, None], [Some 2, None], [Some 3, Some 1], [Some 0, Some 1]]
        2 1 None identity_permutation = Inr [1, 2, 3]
   \<and> set [1, 2, 3] = insert 2 (set (drop_nan [Some 3, Some 1]))"
  using depth_one_seed_and_neighbors
    [of "[[Some 1, None], [Some 2, None], [Some 3, Some 1], [Some 0, Some 1]]" 2
        "[Some 3, Some 1]" identity_permutation]
  by (auto simp add: get_iterative_indices_def iterate_indices.simps py_index_def valid_index_def
      drop_nan_def unique_def)

lemma is_permutation_props:
  assumes "is_permutation perm n"
  shows "distinct perm" and "set perm = {0..<n}" and "length perm = n"
proof -
  from assms have s: "sort perm = [0..<n]"
    by (simp add: is_permutation_def)
  have "distinct (sort perm)" unfolding s by simp
  then show "distinct perm" by simp
  have "set (sort perm) = {0..<n}" unfolding s by simp
  then show "set perm = {0..<n}" by simp
  have "length (sort perm) = n" unfolding s by simp
  then show "length perm = n" by simp
qed

text \<open>
  Claim C6. For every table, seed and depth on which the uncapped call returns a closure
  \<open>u\<close>, every cap \<open>m\<close> smaller than the size of \<open>u\<close> and every permutation the generator may
  draw, the capped call returns \<open>m\<close> indices without duplicates, all of them in \<open>u\<close>.
\<close>

theorem cap_respected:
  assumes "get_iterative_indices indices index n None permutation = Inr u"
    and "m < length u"
    and "is_permutation (permutation (length u)) (length u)"
  shows "\<exists>r. get_iterative_indices indices index n (Some m) permutation = Inr r
           \<and> length r = m \<and> distinct r \<and> set r \<subseteq> set u"
proof -
  let ?p = "permutation (length u)"
  from assms(1) obtain ix where ix: "iterate_indices indices index n = Inr ix" "u = unique ix"
    by (auto simp: get_iterative_indices_uncapped split: sum.splits)
  have res: "get_iterative_indices indices index n (Some m) permutation = Inr (choice u m ?p)"
    using ix assms(2) by (simp add: get_iterative_indices_def Let_def)
  note p = is_permutation_props [OF assms(3)]
  have len: "length (choice u m ?p) = m"
    using assms(2) p(3) by (simp add: choice_def)
  have bound: "i < length u" if "i \<in> set (take m ?p)" for i
    using that p(2) by (auto dest: in_set_takeD)
  have du: "distinct u" using ix(2) by (simp add: distinct_unique)
  have "inj_on (\<lambda>i. u ! i) (set (take m ?p))"
    by (rule inj_onI) (use bound du in \<open>auto simp: nth_eq_iff_index_eq\<close>)
  then have dist: "distinct (choice u m ?p)"
    using p(1) by (simp add: choice_def distinct_map)
  have sub: "set (choice u m ?p) \<subseteq> set u"
    using bound by (auto simp: choice_def)
  from res len dist sub show ?thesis by blast
qed

theorem cap_respected_witness:
  "get_iterative_indices [[Some 1, None], [Some 2, None], [Some 3, Some 1], [Some 0, Some 1]]
      0 3 None reverse_permutation = Inr [0, 1, 2, 3]
   \<and> 2 < length [0, 1, 2, 3 :: int]
   \<and> is_permutation (reverse_permutation (length [0, 1, 2, 3 :: int])) (length [0, 1, 2, 3 :: int])
   \<and> get_iterative_indices [[Some 1, None], [Some 2, None], [Some 3, Some 1], [Some 0, Some 1]]
        0 3 (Some 2) reverse_permutation = Inr [3, 2]
   \<and> length [3, 2 :: int] = 2 \<and> distinct [3, 2 :: int] \<and> set [3, 2] \<subseteq> set [0, 1, 2, 3 :: int]"
  using cap_respected
    [of "[[Some 1, None], [Some 2, None], [Some 3, Some 1], [Some 0, Some 1]]" 0 3
        reverse_permutation "[0, 1, 2, 3]" 2]
  by (simp add: get_iterative_indices_def iterate_indices.simps py_index_def valid_index_def
      drop_nan_def unique_def is_permutation_def reverse_permutation_def
      choice_def upt_rec [of 0] upt_rec [of 1] upt_rec [of 2] upt_rec [of 3] upt_rec [of 4])

section \<open>\<^verbatim>\<open>get_indices\<close>\<close>

text \<open>
  \<^verbatim>\<open>
  def get_indices(dist, n_neighbors=None, mode_neighbors="distances"):
      D = dist.copy()
      D.data += 1e-6

      n_counts = sum(D > 0, axis=1)
      n_neighbors = (
          n_counts.min() if n_neighbors is None else min(n_counts.min(), n_neighbors)
      )
      rows = np.where(n_counts > n_neighbors)[0]
      cumsum_neighs = np.insert(n_counts.cumsum(), 0, 0)
      dat = D.data

      for row in rows:
          n0, n1 = cumsum_neighs[row], cumsum_neighs[row + 1]
          rm_idx = n0 + dat[n0:n1].argsort()[n_neighbors:]
          dat[rm_idx] = 0
      D.eliminate_zeros()

      D.data -= 1e-6
      if mode_neighbors == "distances":
          indices = D.indices.reshape((-1, n_neighbors))
      elif mode_neighbors == "connectivities":
          ...
      return indices, D
  \<close>
  A sparse matrix in compressed-row form is its three arrays and its shape: \<open>data\<close> holds
  the stored values row after row, \<open>indices\<close> their column numbers, and row \<open>i\<close> occupies
  the positions \<open>indptr ! i\<close> up to \<open>indptr ! (i + 1)\<close>. Stored values are floating-point
  numbers in the source and real numbers here, so that adding and subtracting
  \<open>eps = 10\<^sup>-\<^sup>6\<close> cancel exactly. The requested neighbor count is a count, a natural
  number, or \<^verbatim>\<open>None\<close>. The argument \<^verbatim>\<open>dist\<close> is called \<open>dists\<close> and the returned
  index table \<open>table\<close>, the source's names being taken by constants.

  The comparison \<^verbatim>\<open>D > 0\<close> is scipy's, on a matrix in canonical form (within a row the
  column numbers increase and none is repeated), where it compares the stored values one
  by one and leaves the matrix as it is.

  The function is modelled in its default mode \<^verbatim>\<open>"distances"\<close>; the mode
  \<^verbatim>\<open>"connectivities"\<close> computes the same matrix \<open>D\<close> and hands its rows to an external
  kernel for the index table only.

  \<^verbatim>\<open>argsort\<close> is numpy's, called with its default kind, for which numpy promises a
  permutation of the positions that orders the values and no order among equal values. It
  is an argument of the model. The writes \<^verbatim>\<open>dat[rm_idx] = 0\<close> are list updates: under the
  contract of \<^verbatim>\<open>argsort\<close> every position written lies inside the row.
  \<^verbatim>\<open>n_counts.min()\<close> raises \<^verbatim>\<open>ValueError\<close> on a matrix without rows, and
  \<^verbatim>\<open>reshape((-1, k))\<close> raises it when \<open>k = 0\<close> or when the length is not a multiple of \<open>k\<close>.
\<close>

record csr_matrix =
  data :: "real list"
  indices :: "nat list"
  indptr :: "nat list"
  shape :: "nat \<times> nat"

definition eps :: real where
  "eps = 1 / 10 ^ 6"

definition slice :: "'a list \<Rightarrow> nat \<Rightarrow> nat \<Rightarrow> 'a list" where
  "slice xs n0 n1 = take (n1 - n0) (drop n0 xs)"

text \<open>
  Modelled from the spec: the helper \<^verbatim>\<open>sum\<close> of \<^verbatim>\<open>scvelo.core\<close>, which is not among the
  sources. The specification has the function take "the minimum number of stored entries
  across all rows"; \<^verbatim>\<open>sum(D > 0, axis=1)\<close> sums the comparison \<^verbatim>\<open>D > 0\<close> along each row, that
  is, it counts in each row the stored values that are positive.
\<close>

definition n_counts :: "csr_matrix \<Rightarrow> nat list" where
  "n_counts D =
     map (\<lambda>row. length (filter (\<lambda>x. 0 < x) (slice (data D) (indptr D ! row) (indptr D ! (row + 1)))))
       [0..<fst (shape D)]"

fun cumsum_from :: "nat \<Rightarrow> nat list \<Rightarrow> nat list" where
  "cumsum_from acc [] = []"
| "cumsum_from acc (x # xs) = (acc + x) # cumsum_from (acc + x) xs"

definition cumsum :: "nat list \<Rightarrow> nat list" where
  "cumsum xs = cumsum_from 0 xs"

definition zero_at :: "nat list \<Rightarrow> real list \<Rightarrow> real list" where
  "zero_at rm_idx dat = fold (\<lambda>i d. d[i := 0]) rm_idx dat"

fun prune_rows ::
  "(real list \<Rightarrow> nat list) \<Rightarrow> nat list \<Rightarrow> nat \<Rightarrow> nat list \<Rightarrow> real list \<Rightarrow> real list" where
  "prune_rows argsort cumsum_neighs n_neighbors [] dat = dat"
| "prune_rows argsort cumsum_neighs n_neighbors (row # rows) dat =
     (let n0 = cumsum_neighs ! row; n1 = cumsum_neighs ! (row + 1);
          rm_idx = map (\<lambda>i. n0 + i) (drop n_neighbors (argsort (slice dat n0 n1)))
      in prune_rows argsort cumsum_neighs n_neighbors rows (zero_at rm_idx dat))"

text \<open>
  \<^verbatim>\<open>eliminate_zeros\<close> of scipy removes, in place, every stored entry whose value is zero:
  values and column numbers are compacted in step, and each row pointer becomes the number
  of entries kept before it.
\<close>

definition eliminate_zeros :: "csr_matrix \<Rightarrow> csr_matrix" where
  "eliminate_zeros D =
     (let kept = filter (\<lambda>(x, j). x \<noteq> 0) (zip (data D) (indices D))
      in D\<lparr>data := map fst kept,
           indices := map snd kept,
           indptr := map (\<lambda>p. length (filter (\<lambda>x. x \<noteq> 0) (take p (data D)))) (indptr D)\<rparr>)"

definition reshape :: "'a list \<Rightarrow> nat \<Rightarrow> error + 'a list list" where
  "reshape xs k =
     (if k = 0 \<or> length xs mod k \<noteq> 0 then Inl ValueError
      else Inr (map (\<lambda>i. slice xs (i * k) (i * k + k)) [0..<length xs div k]))"

definition get_indices ::
  "(real list \<Rightarrow> nat list) \<Rightarrow> csr_matrix \<Rightarrow> nat option \<Rightarrow> error + nat list list \<times> csr_matrix" where
  "get_indices argsort dists n_neighbors =
     (let D = dists;
          D = D\<lparr>data := map (\<lambda>x. x + eps) (data D)\<rparr>;
          n_counts = n_counts D
      in if n_counts = [] then Inl ValueError
         else
           let n_neighbors =
                 (case n_neighbors of
                    None \<Rightarrow> Min (set n_counts)
                  | Some k \<Rightarrow> min (Min (set n_counts)) k);
               rows = filter (\<lambda>row. n_counts ! row > n_neighbors) [0..<length n_counts];
               cumsum_neighs = 0 # cumsum n_counts;
               dat = prune_rows argsort cumsum_neighs n_neighbors rows (data D);
               D = eliminate_zeros (D\<lparr>data := dat\<rparr>);
               D = D\<lparr>data := map (\<lambda>x. x - eps) (data D)\<rparr>
           in case reshape (indices D) n_neighbors of
                Inl e \<Rightarrow> Inl e
              | Inr table \<Rightarrow> Inr (table, D))"

subsection \<open>The same function over a store of arrays\<close>

text \<open>
  Whether the argument is left alone depends on which arrays the function writes. In this
  second model the arrays live in a store, addressed by their position in it; a matrix
  object holds the addresses of its three arrays. \<^verbatim>\<open>dist.copy()\<close> allocates three new
  arrays behind the existing ones, and every in-place operation of the source
  (\<^verbatim>\<open>D.data += 1e-6\<close>, the writes through the alias \<^verbatim>\<open>dat\<close>, \<^verbatim>\<open>D.eliminate_zeros()\<close>,
  \<^verbatim>\<open>D.data -= 1e-6\<close>) is a write to the store at an address held by \<open>D\<close>. The function
  returns the store it leaves behind together with its result or its exception.
\<close>

datatype ndarray = Floats "real list" | Ints "nat list"

type_synonym store = "ndarray list"

record csr_object =
  data_at :: nat
  indices_at :: nat
  indptr_at :: nat
  shape_of :: "nat \<times> nat"

definition floats :: "store \<Rightarrow> nat \<Rightarrow> real list" where
  "floats s a = (case s ! a of Floats xs \<Rightarrow> xs | Ints _ \<Rightarrow> [])"

definition ints :: "store \<Rightarrow> nat \<Rightarrow> nat list" where
  "ints s a = (case s ! a of Ints xs \<Rightarrow> xs | Floats _ \<Rightarrow> [])"

definition load :: "store \<Rightarrow> csr_object \<Rightarrow> csr_matrix" where
  "load s A = \<lparr>data = floats s (data_at A), indices = ints s (indices_at A),
               indptr = ints s (indptr_at A), shape = shape_of A\<rparr>"

definition copy :: "store \<Rightarrow> csr_object \<Rightarrow> csr_object \<times> store" where
  "copy s A =
     (\<lparr>data_at = length s, indices_at = length s + 1, indptr_at = length s + 2,
       shape_of = shape_of A\<rparr>,
      s @ [s ! data_at A, s ! indices_at A, s ! indptr_at A])"

fun prune_rows_store ::
  "(real list \<Rightarrow> nat list) \<Rightarrow> nat list \<Rightarrow> nat \<Rightarrow> nat list \<Rightarrow> nat \<Rightarrow> store \<Rightarrow> store" where
  "prune_rows_store argsort cumsum_neighs n_neighbors [] dat s = s"
| "prune_rows_store argsort cumsum_neighs n_neighbors (row # rows) dat s =
     (let n0 = cumsum_neighs ! row; n1 = cumsum_neighs ! (row + 1);
          rm_idx = map (\<lambda>i. n0 + i) (drop n_neighbors (argsort (slice (floats s dat) n0 n1)))
      in prune_rows_store argsort cumsum_neighs n_neighbors rows dat
           (s[dat := Floats (zero_at rm_idx (floats s dat))]))"

definition eliminate_zeros_store :: "csr_object \<Rightarrow> store \<Rightarrow> store" where
  "eliminate_zeros_store D s =
     (let E = eliminate_zeros (load s D)
      in s[data_at D := Floats (data E), indices_at D := Ints (indices E),
           indptr_at D := Ints (indptr E)])"

definition get_indices_store ::
  "(real list \<Rightarrow> nat list) \<Rightarrow> store \<Rightarrow> csr_object \<Rightarrow> nat option
     \<Rightarrow> store \<times> (error + nat list list \<times> csr_object)" where
  "get_indices_store argsort s dists n_neighbors =
     (let (D, s) = copy s dists;
          s = s[data_at D := Floats (map (\<lambda>x. x + eps) (floats s (data_at D)))];
          n_counts = n_counts (load s D)
      in if n_counts = [] then (s, Inl ValueError)
         else
           let n_neighbors =
                 (case n_neighbors of
                    None \<Rightarrow> Min (set n_counts)
                  | Some k \<Rightarrow> min (Min (set n_counts)) k);
               rows = filter (\<lambda>row. n_counts ! row > n_neighbors) [0..<length n_counts];
               cumsum_neighs = 0 # cumsum n_counts;
               dat = data_at D;
               s = prune_rows_store argsort cumsum_neighs n_neighbors rows dat s;
               s = eliminate_zeros_store D s;
               s = s[data_at D := Floats (map (\<lambda>x. x - eps) (floats s (data_at D)))]
           in case reshape (ints s (indices_at D)) n_neighbors of
                Inl e \<Rightarrow> (s, Inl e)
              | Inr table \<Rightarrow> (s, Inr (table, D)))"

subsection \<open>Rows, well-formed matrices and the contract of \<^verbatim>\<open>argsort\<close>\<close>






definition is_argsort :: "real list \<Rightarrow> nat list \<Rightarrow> bool" where
  "is_argsort xs p =
     (distinct p \<and> set p = {0..<length xs} \<and> sorted (map (\<lambda>i. xs ! i) p))"

definition is_stable_argsort :: "real list \<Rightarrow> nat list \<Rightarrow> bool" where
  "is_stable_argsort xs p =
     (is_argsort xs p \<and> sorted_wrt (\<lambda>i j. xs ! i < xs ! j \<or> (xs ! i = xs ! j \<and> i < j)) p)"

definition argsort_contract :: "(real list \<Rightarrow> nat list) \<Rightarrow> bool" where
  "argsort_contract argsort = (\<forall>xs. is_argsort xs (argsort xs))"


definition valid_object :: "store \<Rightarrow> csr_object \<Rightarrow> bool" where
  "valid_object s A =
     (data_at A < length s \<and> indices_at A < length s \<and> indptr_at A < length s)"

definition stable_argsort :: "real list \<Rightarrow> nat list" where
  "stable_argsort xs = sort_key (\<lambda>i. xs ! i) [0..<length xs]"

definition last_tie_argsort :: "real list \<Rightarrow> nat list" where
  "last_tie_argsort xs = sort_key (\<lambda>i. xs ! i) (rev [0..<length xs])"



definition kept :: "(real list \<Rightarrow> nat list) \<Rightarrow> nat \<Rightarrow> real list \<Rightarrow> nat set" where
  "kept argsort kk r =
     (if kk < length r then set (take kk (argsort (map (\<lambda>x. x + eps) r))) else UNIV)"

subsection \<open>Slices, the pruning loop and \<^verbatim>\<open>eliminate_zeros\<close>\<close>









lemma length_zero_at [simp]: "length (zero_at is d) = length d"
  unfolding zero_at_def by (induction "is" arbitrary: d) auto








lemma length_prune_rows [simp]:
  "length (prune_rows argsort cs kk rows dat) = length dat"
  by (induction rows arbitrary: dat) (auto simp: Let_def)




lemma length_cumsum_from [simp]: "length (cumsum_from acc xs) = length xs"
  by (induction xs arbitrary: acc) auto




















lemma insort_key_stable:
  fixes f :: "nat \<Rightarrow> real"
  assumes "sorted_wrt (\<lambda>i j. f i < f j \<or> (f i = f j \<and> i < j)) ys"
    and "\<forall>y \<in> set ys. x < y"
  shows "sorted_wrt (\<lambda>i j. f i < f j \<or> (f i = f j \<and> i < j)) (insort_key f x ys)"
  using assms
proof (induction ys)
  case Nil
  then show ?case by simp
next
  case (Cons y ys)
  show ?case
  proof (cases "f x \<le> f y")
    case True
    have "f x < f z \<or> (f x = f z \<and> x < z)" if "z \<in> set (y # ys)" for z
    proof -
      have "f y \<le> f z" using that Cons.prems(1) by auto
      moreover have "x < z" using that Cons.prems(2) by auto
      ultimately show ?thesis using True by auto
    qed
    with True Cons.prems(1) show ?thesis by simp
  next
    case False
    then have "sorted_wrt (\<lambda>i j. f i < f j \<or> (f i = f j \<and> i < j)) (insort_key f x ys)"
      using Cons by simp
    with False Cons.prems(1) show ?thesis by (auto simp: set_insort_key)
  qed
qed

lemma sort_key_stable_positions:
  fixes f :: "nat \<Rightarrow> real"
  shows "sorted_wrt (<) xs \<Longrightarrow>
    sorted_wrt (\<lambda>i j. f i < f j \<or> (f i = f j \<and> i < j)) (sort_key f xs)"
proof (induction xs)
  case Nil
  then show ?case by simp
next
  case (Cons x xs)
  then show ?case by (simp add: insort_key_stable)
qed

lemma stable_argsort_contract: "is_stable_argsort xs (stable_argsort xs)"
proof -
  have "sorted_wrt (<) [0..<length xs]"
    using strict_sorted_iff [of "[0..<length xs]"] by simp
  then show ?thesis
    using sort_key_stable_positions [of "[0..<length xs]" "\<lambda>i. xs ! i"]
    by (simp add: is_stable_argsort_def is_argsort_def stable_argsort_def)
qed

lemma stable_argsort_is_argsort: "\<forall>xs. is_argsort xs (stable_argsort xs)"
  using stable_argsort_contract by (simp add: is_stable_argsort_def)






lemma length_prune_rows_store [simp]:
  "length (prune_rows_store argsort cs nn rows dat s) = length s"
  by (induction rows arbitrary: s) (auto simp: Let_def)

lemma take_prune_rows_store:
  "n \<le> dat \<Longrightarrow> take n (prune_rows_store argsort cs nn rows dat s) = take n s"
  by (induction rows arbitrary: s) (auto simp: Let_def take_update_cancel)

lemma length_eliminate_zeros_store [simp]:
  "length (eliminate_zeros_store D s) = length s"
  by (simp add: eliminate_zeros_store_def Let_def)

lemma take_eliminate_zeros_store:
  "n \<le> data_at D \<Longrightarrow> n \<le> indices_at D \<Longrightarrow> n \<le> indptr_at D \<Longrightarrow>
     take n (eliminate_zeros_store D s) = take n s"
  by (simp add: eliminate_zeros_store_def Let_def take_update_cancel)

lemma floats_update: "a < length t \<Longrightarrow> floats (t[a := Floats xs]) a = xs"
  by (simp add: floats_def)

lemma load_floats_update:
  "data_at D < length t \<Longrightarrow> data_at D \<noteq> indices_at D \<Longrightarrow> data_at D \<noteq> indptr_at D \<Longrightarrow>
     load (t[data_at D := Floats xs]) D = (load t D)\<lparr>data := xs\<rparr>"
  by (simp add: load_def floats_def ints_def)

lemma load_prune_rows_store:
  "data_at D < length t \<Longrightarrow> data_at D \<noteq> indices_at D \<Longrightarrow> data_at D \<noteq> indptr_at D \<Longrightarrow>
     load (prune_rows_store argsort cs nn rows (data_at D) t) D
       = (load t D)\<lparr>data := prune_rows argsort cs nn rows (data (load t D))\<rparr>"
proof (induction rows arbitrary: t)
  case Nil
  then show ?case by simp
next
  case (Cons r rows)
  have d: "data (load t D) = floats t (data_at D)" for t
    by (simp add: load_def)
  show ?case
    using Cons.IH Cons.prems by (simp add: Let_def load_floats_update d floats_update)
qed

lemma load_eliminate_zeros_store:
  assumes "data_at D < length t" "indices_at D < length t" "indptr_at D < length t"
    and "data_at D \<noteq> indices_at D" "data_at D \<noteq> indptr_at D" "indices_at D \<noteq> indptr_at D"
  shows "load (eliminate_zeros_store D t) D = eliminate_zeros (load t D)"
  using assms
  by (simp add: eliminate_zeros_store_def Let_def load_def floats_def ints_def
      eliminate_zeros_def)

lemma get_indices_store_run:
  fixes s :: store and dists :: csr_object
  defines "L \<equiv> length s"
  defines "D \<equiv> \<lparr>data_at = L, indices_at = L + 1, indptr_at = L + 2, shape_of = shape_of dists\<rparr>"
  shows "\<exists>s'. get_indices_store argsort s dists k =
                (s', map_sum id (\<lambda>(table, P). (table, D)) (get_indices argsort (load s dists) k))
              \<and> take L s' = s \<and> length s' = L + 3
              \<and> (\<forall>table P. get_indices argsort (load s dists) k = Inr (table, P)
                    \<longrightarrow> load s' D = P)"
proof -
  define s0 where "s0 = s @ [s ! data_at dists, s ! indices_at dists, s ! indptr_at dists]"
  define s1 where "s1 = s0[L := Floats (map (\<lambda>x. x + eps) (floats s0 L))]"
  define Dp where "Dp = (load s dists)\<lparr>data := map (\<lambda>x. x + eps) (data (load s dists))\<rparr>"
  define nc where "nc = n_counts Dp"
  define kk where "kk = (case k of None \<Rightarrow> Min (set nc) | Some k' \<Rightarrow> min (Min (set nc)) k')"
  define rows where "rows = filter (\<lambda>row. nc ! row > kk) [0..<length nc]"
  define s2 where "s2 = prune_rows_store argsort (0 # cumsum nc) kk rows L s1"
  define s3 where "s3 = eliminate_zeros_store D s2"
  define s4 where "s4 = s3[L := Floats (map (\<lambda>x. x - eps) (floats s3 L))]"
  define M where "M = (load s dists)\<lparr>data := prune_rows argsort (0 # cumsum nc) kk rows
                          (map (\<lambda>x. x + eps) (data (load s dists)))\<rparr>"
  define E where "E = eliminate_zeros M"
  define P where "P = E\<lparr>data := map (\<lambda>x. x - eps) (data E)\<rparr>"
  have D: "data_at D = L" "indices_at D = L + 1" "indptr_at D = L + 2"
          "shape_of D = shape_of dists"
    by (simp_all add: D_def)
  have cp: "copy s dists = (D, s0)"
    by (simp add: copy_def D_def L_def s0_def)
  have len: "length s0 = L + 3" "length s1 = L + 3" "length s2 = L + 3"
            "length s3 = L + 3" "length s4 = L + 3"
    by (simp_all add: s0_def s1_def s2_def s3_def s4_def L_def)
  have tk: "take L s0 = s" "take L s1 = s" "take L s2 = s" "take L s3 = s" "take L s4 = s"
  proof -
    show 0: "take L s0 = s" by (simp add: s0_def L_def)
    then show 1: "take L s1 = s" by (simp add: s1_def take_update_cancel)
    then show 2: "take L s2 = s" by (simp add: s2_def take_prune_rows_store)
    then show 3: "take L s3 = s" by (simp add: s3_def take_eliminate_zeros_store D)
    then show "take L s4 = s" by (simp add: s4_def take_update_cancel)
  qed
  have l0: "load s0 D = load s dists"
    by (simp add: load_def floats_def ints_def D s0_def L_def nth_append)
  have f0: "floats s0 L = data (load s dists)"
    using arg_cong [where f = data, OF l0] by (simp add: load_def D)
  have l1: "load s1 D = Dp"
  proof -
    have "load s1 D = (load s0 D)\<lparr>data := map (\<lambda>x. x + eps) (floats s0 L)\<rparr>"
      unfolding s1_def using load_floats_update [of D s0] len(1) by (simp add: D)
    then show ?thesis by (simp add: l0 f0 Dp_def)
  qed
  have l2: "load s2 D = M"
    using load_prune_rows_store [of D s1 argsort "0 # cumsum nc" kk rows] len(2)
    by (simp add: s2_def D l1 M_def Dp_def)
  have l3: "load s3 D = E"
    using load_eliminate_zeros_store [of D s2] len(3)
    by (simp add: s3_def D l2 E_def)
  have f3: "floats s3 L = data E"
    using arg_cong [where f = data, OF l3] by (simp add: load_def D)
  have l4: "load s4 D = P"
  proof -
    have "load s4 D = (load s3 D)\<lparr>data := map (\<lambda>x. x - eps) (floats s3 L)\<rparr>"
      unfolding s4_def using load_floats_update [of D s3] len(4) by (simp add: D)
    then show ?thesis by (simp add: l3 f3 P_def)
  qed
  have ix: "ints s4 (Suc L) = indices E"
    using arg_cong [where f = indices, OF l4] by (simp add: load_def D P_def)
  have ixP: "indices P = indices E" by (simp add: P_def)
  have kk_eq: "(case k of None \<Rightarrow> Min (set nc) | Some k' \<Rightarrow> min (Min (set nc)) k') = kk"
    by (simp add: kk_def)
  have nc1: "n_counts (load s1 D) = nc"
    by (simp add: l1 nc_def)
  have pure: "get_indices argsort (load s dists) k =
                (if nc = [] then Inl ValueError
                 else case reshape (indices P) kk of
                        Inl e \<Rightarrow> Inl e | Inr table \<Rightarrow> Inr (table, P))"
  proof (cases k)
    case None
    with kk_eq have "Min (set nc) = kk" by simp
    with None show ?thesis
      by (simp add: get_indices_def Let_def Dp_def [symmetric] nc_def [symmetric]
          rows_def [symmetric] M_def [symmetric] E_def [symmetric]
          P_def [symmetric] ixP cong: sum.case_cong if_cong)
  next
    case (Some k')
    with kk_eq have "min (Min (set nc)) k' = kk" by simp
    with Some show ?thesis
      by (simp add: get_indices_def Let_def Dp_def [symmetric] nc_def [symmetric]
          rows_def [symmetric] M_def [symmetric] E_def [symmetric]
          P_def [symmetric] ixP cong: sum.case_cong if_cong)
  qed
  have st: "get_indices_store argsort s dists k =
              (if nc = [] then (s1, Inl ValueError)
               else case reshape (indices P) kk of
                      Inl e \<Rightarrow> (s4, Inl e) | Inr table \<Rightarrow> (s4, Inr (table, D)))"
  proof (cases k)
    case None
    with kk_eq have "Min (set nc) = kk" by simp
    with None show ?thesis
      by (simp add: get_indices_store_def cp Let_def D nc1
          s1_def [symmetric] rows_def [symmetric] s2_def [symmetric]
          s3_def [symmetric] s4_def [symmetric] ix ixP cong: sum.case_cong if_cong)
  next
    case (Some k')
    with kk_eq have "min (Min (set nc)) k' = kk" by simp
    with Some show ?thesis
      by (simp add: get_indices_store_def cp Let_def D nc1
          s1_def [symmetric] rows_def [symmetric] s2_def [symmetric]
          s3_def [symmetric] s4_def [symmetric] ix ixP cong: sum.case_cong if_cong)
  qed
  show ?thesis
  proof (cases "nc = []")
    case True
    with pure st tk(2) len(2) show ?thesis by simp
  next
    case False
    with pure st tk(5) len(5) l4 show ?thesis
      by (cases "reshape (indices P) kk") auto
  qed
qed


lemma last_tie_argsort_contract: "argsort_contract last_tie_argsort"
  by (simp add: argsort_contract_def is_argsort_def last_tie_argsort_def atLeast0LessThan)

subsection \<open>The claims about \<^verbatim>\<open>get_indices\<close>\<close>


text \<open>
  With \<open>last_tie_argsort\<close>, which meets the contract of \<^verbatim>\<open>argsort\<close>, the row
  \<open>[0.5, 0.5, 0.1]\<close> pruned to two neighbors keeps the second of the two equal distances:
  the order among ties is the sorting routine's, not the function's.
\<close>

lemma argsort_ties_not_fixed:
  "get_indices last_tie_argsort
     \<lparr>data = [1/2, 1/2, 1/10], indices = [1, 2, 3], indptr = [0, 3], shape = (1, 4)\<rparr> (Some 2)
   = Inr ([[2, 3]], \<lparr>data = [1/2, 1/10], indices = [2, 3], indptr = [0, 2], shape = (1, 4)\<rparr>)"
  by code_simp





text \<open>
  Claim C10. \<open>get_indices\<close> never modifies its input. Whatever the store, the argument
  and the count, and whether the call returns or raises, every array that existed before
  the call is unchanged after it, so the argument reads as the same matrix; a returned
  matrix lives in arrays allocated by the call, and it is the matrix the model without a
  store computes from the argument.
\<close>

theorem get_indices_leaves_input:
  assumes "get_indices_store argsort s dists k = (s', r)"
  shows "take (length s) s' = s
       \<and> (valid_object s dists \<longrightarrow> load s' dists = load s dists)
       \<and> (\<forall>e. r = Inl e \<longrightarrow> get_indices argsort (load s dists) k = Inl e)
       \<and> (\<forall>table D. r = Inr (table, D) \<longrightarrow>
             D = fst (copy s dists)
           \<and> length s \<le> data_at D \<and> length s \<le> indices_at D \<and> length s \<le> indptr_at D
           \<and> get_indices argsort (load s dists) k = Inr (table, load s' D))"
proof -
  let ?D = "\<lparr>data_at = length s, indices_at = length s + 1, indptr_at = length s + 2,
             shape_of = shape_of dists\<rparr>"
  from get_indices_store_run [of argsort s dists k] obtain s'' where
    st: "get_indices_store argsort s dists k =
           (s'', map_sum id (\<lambda>(table, P). (table, ?D)) (get_indices argsort (load s dists) k))"
    and fr: "take (length s) s'' = s"
    and rt: "\<forall>table P. get_indices argsort (load s dists) k = Inr (table, P)
                \<longrightarrow> load s'' ?D = P"
    by blast
  from st assms have eq: "s'' = s'"
    and run: "r = map_sum id (\<lambda>(table, P). (table, ?D)) (get_indices argsort (load s dists) k)"
    by simp_all
  have frame: "take (length s) s' = s" using fr unfolding eq .
  have ret: "\<forall>table P. get_indices argsort (load s dists) k = Inr (table, P)
                \<longrightarrow> load s' ?D = P"
    using rt unfolding eq .
  have same: "load s' dists = load s dists" if "valid_object s dists"
  proof -
    have "s' ! a = s ! a" if "a < length s" for a
      using that frame by (metis nth_take)
    with \<open>valid_object s dists\<close> show ?thesis
      by (simp add: load_def floats_def ints_def valid_object_def)
  qed
  have err: "get_indices argsort (load s dists) k = Inl e" if "r = Inl e" for e
    using that run by (cases "get_indices argsort (load s dists) k") auto
  have ok: "D = fst (copy s dists)
           \<and> length s \<le> data_at D \<and> length s \<le> indices_at D \<and> length s \<le> indptr_at D
           \<and> get_indices argsort (load s dists) k = Inr (table, load s' D)"
    if "r = Inr (table, D)" for table D
  proof -
    from that run obtain P where
      P: "get_indices argsort (load s dists) k = Inr (table, P)" and D: "D = ?D"
      by (cases "get_indices argsort (load s dists) k") auto
    from ret P have "load s' ?D = P" by blast
    with P D show ?thesis by (simp add: copy_def)
  qed
  from frame same err ok show ?thesis by blast
qed

theorem get_indices_leaves_input_witness:
  "valid_object [Floats [1/10, 3/10, 2/10, 4/10], Ints [1, 2, 3, 4], Ints [0, 4]]
     \<lparr>data_at = 0, indices_at = 1, indptr_at = 2, shape_of = (1, 5)\<rparr>
   \<and> take (length [Floats [1/10, 3/10, 2/10, 4/10], Ints [1, 2, 3, 4], Ints [0, 4]])
        (fst (get_indices_store stable_argsort
           [Floats [1/10, 3/10, 2/10, 4/10], Ints [1, 2, 3, 4], Ints [0, 4]]
           \<lparr>data_at = 0, indices_at = 1, indptr_at = 2, shape_of = (1, 5)\<rparr> (Some 2)))
       = [Floats [1/10, 3/10, 2/10, 4/10], Ints [1, 2, 3, 4], Ints [0, 4]]
   \<and> load (fst (get_indices_store stable_argsort
           [Floats [1/10, 3/10, 2/10, 4/10], Ints [1, 2, 3, 4], Ints [0, 4]]
           \<lparr>data_at = 0, indices_at = 1, indptr_at = 2, shape_of = (1, 5)\<rparr> (Some 2)))
        \<lparr>data_at = 0, indices_at = 1, indptr_at = 2, shape_of = (1, 5)\<rparr>
       = \<lparr>data = [1/10, 3/10, 2/10, 4/10], indices = [1, 2, 3, 4], indptr = [0, 4],
          shape = (1, 5)\<rparr>
   \<and> snd (get_indices_store stable_argsort
           [Floats [1/10, 3/10, 2/10, 4/10], Ints [1, 2, 3, 4], Ints [0, 4]]
           \<lparr>data_at = 0, indices_at = 1, indptr_at = 2, shape_of = (1, 5)\<rparr> (Some 2))
       = Inr ([[1, 3]], \<lparr>data_at = 3, indices_at = 4, indptr_at = 5, shape_of = (1, 5)\<rparr>)
   \<and> load (fst (get_indices_store stable_argsort
           [Floats [1/10, 3/10, 2/10, 4/10], Ints [1, 2, 3, 4], Ints [0, 4]]
           \<lparr>data_at = 0, indices_at = 1, indptr_at = 2, shape_of = (1, 5)\<rparr> (Some 2)))
        \<lparr>data_at = 3, indices_at = 4, indptr_at = 5, shape_of = (1, 5)\<rparr>
       = \<lparr>data = [1/10, 2/10], indices = [1, 3], indptr = [0, 2], shape = (1, 5)\<rparr>"
proof -
  let ?S = "[Floats [1/10, 3/10, 2/10, 4/10], Ints [1, 2, 3, 4], Ints [0, 4]]"
  let ?A = "\<lparr>data_at = 0, indices_at = 1, indptr_at = 2, shape_of = (1, 5)\<rparr>"
  let ?P = "\<lparr>data = [1/10, 2/10], indices = [1, 3], indptr = [0, 2], shape = (1, 5)\<rparr>"
  obtain s' r where run: "get_indices_store stable_argsort ?S ?A (Some 2) = (s', r)"
    by (cases "get_indices_store stable_argsort ?S ?A (Some 2)") blast
  have ld: "load ?S ?A
      = \<lparr>data = [1/10, 3/10, 2/10, 4/10], indices = [1, 2, 3, 4], indptr = [0, 4],
         shape = (1, 5)\<rparr>"
    by (simp add: load_def floats_def ints_def)
  have pure: "get_indices stable_argsort (load ?S ?A) (Some 2) = Inr ([[1, 3]], ?P)"
    unfolding ld by code_simp
  have v: "valid_object ?S ?A" by (simp add: valid_object_def)
  have cp: "fst (copy ?S ?A)
      = \<lparr>data_at = 3, indices_at = 4, indptr_at = 5, shape_of = (1, 5)\<rparr>"
    by (simp add: copy_def)
  note t = get_indices_leaves_input [OF run]
  from t have frame: "take (length ?S) s' = ?S" by blast
  from t v have same: "load s' ?A = load ?S ?A" by blast
  have res: "r = Inr ([[1, 3]], fst (copy ?S ?A)) \<and> load s' (fst (copy ?S ?A)) = ?P"
  proof (cases r)
    case (Inl e)
    with t have "get_indices stable_argsort (load ?S ?A) (Some 2) = Inl e" by blast
    with pure show ?thesis by simp
  next
    case (Inr x)
    obtain table D where x: "x = (table, D)" by (cases x)
    with Inr t have "D = fst (copy ?S ?A)"
      and "get_indices stable_argsort (load ?S ?A) (Some 2) = Inr (table, load s' D)"
      by blast+
    with pure Inr x show ?thesis by simp
  qed
  from frame same res v show ?thesis
    unfolding cp ld run fst_conv snd_conv by simp
qed


section \<open>\<^verbatim>\<open>geometric_matrix_sum\<close>\<close>

text \<open>
  \<^verbatim>\<open>
  def geometric_matrix_sum(C, n_power=2):  # computes C + C^2 + C^3 + ...
      C_n = (
          geometric_matrix_sum(C, n_power - 1) if n_power > 2 else C if n_power > 1 else 0
      )
      return C + C.dot(C_n)
  \<close>
  A dense matrix is the list of its rows. The entries are floating-point numbers in the
  source and real numbers here: the theorems below are about exact arithmetic, which is
  what the specification's "within floating-point tolerance" idealises. The argument of
  \<^verbatim>\<open>C.dot\<close> is a matrix or, at \<^verbatim>\<open>n_power <= 1\<close>, the scalar \<^verbatim>\<open>0\<close>; a product of matrices
  whose shapes do not fit raises \<^verbatim>\<open>ValueError\<close>.
\<close>

type_synonym matrix = "real list list"

datatype operand = Scalar real | Matrix matrix

definition nrows :: "matrix \<Rightarrow> nat" where
  "nrows A = length A"

definition ncols :: "matrix \<Rightarrow> nat" where
  "ncols A = (case A of [] \<Rightarrow> 0 | r # _ \<Rightarrow> length r)"

definition is_square :: "nat \<Rightarrow> matrix \<Rightarrow> bool" where
  "is_square n A = (length A = n \<and> list_all (\<lambda>r. length r = n) A)"

definition madd :: "matrix \<Rightarrow> matrix \<Rightarrow> matrix" where
  "madd A B = map2 (map2 (+)) A B"

definition matmul :: "matrix \<Rightarrow> matrix \<Rightarrow> matrix" where
  "matmul A B =
     map (\<lambda>row. map (\<lambda>j. \<Sum>k\<leftarrow>[0..<length B]. row ! k * B ! k ! j) [0..<ncols B]) A"

definition dot :: "matrix \<Rightarrow> operand \<Rightarrow> error + matrix" where
  "dot A x =
     (case x of
        Scalar s \<Rightarrow> Inr (map (map (\<lambda>a. a * s)) A)
      | Matrix B \<Rightarrow> if ncols A = nrows B then Inr (matmul A B) else Inl ValueError)"

definition add_dot :: "matrix \<Rightarrow> operand \<Rightarrow> error + matrix" where
  "add_dot C C_n = (case dot C C_n of Inl e \<Rightarrow> Inl e | Inr P \<Rightarrow> Inr (madd C P))"

function geometric_matrix_sum :: "matrix \<Rightarrow> int \<Rightarrow> error + matrix" where
  "geometric_matrix_sum C n_power =
     (if n_power > 2 then
        (case geometric_matrix_sum C (n_power - 1) of
           Inl e \<Rightarrow> Inl e
         | Inr S \<Rightarrow> add_dot C (Matrix S))
      else if n_power > 1 then add_dot C (Matrix C)
      else add_dot C (Scalar 0))"
  by pat_completeness auto
termination
  by (relation "measure (\<lambda>(C, n_power). nat n_power)") auto

declare geometric_matrix_sum.simps [simp del]

text \<open>
  The specification's side of the comparison: the powers \<open>C\<^sup>k\<close> by repeated multiplication
  and the sum \<open>C + C\<^sup>2 + \<dots> + C\<^sup>k\<close>, written without reference to the function above.
\<close>

fun matrix_power :: "matrix \<Rightarrow> nat \<Rightarrow> matrix" where
  "matrix_power C 0 = map (\<lambda>i. map (\<lambda>j. if i = j then 1 else 0) [0..<length C]) [0..<length C]"
| "matrix_power C (Suc 0) = C"
| "matrix_power C (Suc (Suc k)) = matmul C (matrix_power C (Suc k))"

fun power_sum :: "matrix \<Rightarrow> nat \<Rightarrow> matrix" where
  "power_sum C 0 = map (map (\<lambda>_. 0)) C"
| "power_sum C (Suc 0) = matrix_power C (Suc 0)"
| "power_sum C (Suc (Suc k)) = madd (power_sum C (Suc k)) (matrix_power C (Suc (Suc k)))"


lemma ncols_square: "is_square n A \<Longrightarrow> ncols A = n"
  by (cases A) (auto simp: ncols_def is_square_def)

lemma square_row: "is_square n A \<Longrightarrow> i < n \<Longrightarrow> length (A ! i) = n"
  by (auto simp: is_square_def list_all_length)

lemma is_square_madd: "is_square n A \<Longrightarrow> is_square n B \<Longrightarrow> is_square n (madd A B)"
  by (auto simp: is_square_def madd_def list_all_length)

lemma is_square_matmul: "is_square n A \<Longrightarrow> is_square n B \<Longrightarrow> is_square n (matmul A B)"
  by (auto simp: matmul_def ncols_square is_square_def list_all_length)

lemma madd_nth:
  "is_square n A \<Longrightarrow> is_square n B \<Longrightarrow> i < n \<Longrightarrow> j < n \<Longrightarrow>
     madd A B ! i ! j = A ! i ! j + B ! i ! j"
  by (auto simp: madd_def is_square_def list_all_length)

lemma matmul_nth:
  "is_square n A \<Longrightarrow> is_square n B \<Longrightarrow> i < n \<Longrightarrow> j < n \<Longrightarrow>
     matmul A B ! i ! j = (\<Sum>k\<leftarrow>[0..<n]. A ! i ! k * B ! k ! j)"
  by (auto simp: matmul_def ncols_square is_square_def)

lemma square_eqI:
  assumes "is_square n A" "is_square n B"
    and "\<And>i j. i < n \<Longrightarrow> j < n \<Longrightarrow> A ! i ! j = B ! i ! j"
  shows "A = B"
proof (rule nth_equalityI)
  show "length A = length B" using assms by (simp add: is_square_def)
next
  fix i assume "i < length A"
  then have i: "i < n" using assms by (simp add: is_square_def)
  show "A ! i = B ! i"
    by (rule nth_equalityI) (use assms i in \<open>auto simp: square_row\<close>)
qed

lemma madd_assoc:
  assumes "is_square n A" "is_square n B" "is_square n C"
  shows "madd (madd A B) C = madd A (madd B C)"
  by (rule square_eqI [where n = n])
     (use assms in \<open>auto simp: is_square_madd madd_nth [where n = n]\<close>)

lemma matmul_madd_distrib:
  assumes "is_square n A" "is_square n B" "is_square n C"
  shows "matmul A (madd B C) = madd (matmul A B) (matmul A C)"
proof (rule square_eqI [where n = n])
  fix i j assume ij: "i < n" "j < n"
  have "matmul A (madd B C) ! i ! j = (\<Sum>k\<leftarrow>[0..<n]. A ! i ! k * madd B C ! k ! j)"
    using assms ij by (simp add: matmul_nth [where n = n] is_square_madd)
  also have "\<dots> = (\<Sum>k\<leftarrow>[0..<n]. A ! i ! k * B ! k ! j + A ! i ! k * C ! k ! j)"
    by (rule arg_cong [where f = sum_list], rule map_cong)
       (use assms ij in \<open>auto simp: madd_nth [where n = n] distrib_left\<close>)
  also have "\<dots> = matmul A B ! i ! j + matmul A C ! i ! j"
    using assms ij by (simp add: matmul_nth [where n = n] sum_list_addf)
  finally show "matmul A (madd B C) ! i ! j = madd (matmul A B) (matmul A C) ! i ! j"
    using assms ij by (simp add: madd_nth [where n = n] is_square_matmul)
qed (use assms in \<open>auto simp: is_square_madd is_square_matmul\<close>)

lemma madd_scale_zero: "madd C (map (map (\<lambda>a. 0)) C) = C"
  by (auto simp: madd_def intro!: nth_equalityI)


lemma add_dot_square:
  "is_square n C \<Longrightarrow> is_square n S \<Longrightarrow> add_dot C (Matrix S) = Inr (madd C (matmul C S))"
  by (simp add: add_dot_def dot_def ncols_square nrows_def is_square_def)

lemma is_square_matrix_power:
  "is_square n C \<Longrightarrow> is_square n (matrix_power C (Suc k))"
  by (induction k) (auto simp: is_square_matmul)

lemma is_square_power_sum:
  "is_square n C \<Longrightarrow> is_square n (power_sum C (Suc k))"
proof (induction k)
  case 0
  then show ?case by simp
next
  case (Suc k)
  then show ?case
    using is_square_matrix_power [of n C "Suc k"] by (simp add: is_square_madd)
qed

lemma power_sum_step:
  assumes "is_square n C"
  shows "madd C (matmul C (power_sum C (Suc k))) = power_sum C (Suc (Suc k))"
proof (induction k)
  case 0
  show ?case by simp
next
  case (Suc k)
  let ?S = "power_sum C (Suc k)" and ?P = "matrix_power C (Suc (Suc k))"
  have sq: "is_square n ?S" "is_square n ?P" "is_square n (matmul C ?S)" "is_square n (matmul C ?P)"
    using assms by (simp_all add: is_square_power_sum is_square_matrix_power is_square_matmul
        del: power_sum.simps matrix_power.simps)
  have "madd C (matmul C (power_sum C (Suc (Suc k)))) = madd C (matmul C (madd ?S ?P))"
    by simp
  also have "\<dots> = madd C (madd (matmul C ?S) (matmul C ?P))"
    using assms sq by (simp only: matmul_madd_distrib [where n = n])
  also have "\<dots> = madd (madd C (matmul C ?S)) (matmul C ?P)"
    using assms sq by (simp only: madd_assoc [where n = n])
  also have "\<dots> = madd (power_sum C (Suc (Suc k))) (matrix_power C (Suc (Suc (Suc k))))"
    using Suc by simp
  finally show ?case by simp
qed

lemma geometric_matrix_sum_one: "geometric_matrix_sum C 1 = Inr C"
  by (simp add: geometric_matrix_sum.simps add_dot_def dot_def madd_scale_zero)

lemma geometric_matrix_sum_power_sum:
  assumes "is_square n C"
  shows "geometric_matrix_sum C (int (Suc k)) = Inr (power_sum C (Suc k))"
proof (induction k)
  case 0
  show ?case using geometric_matrix_sum_one [of C] by simp
next
  case (Suc k)
  show ?case
  proof (cases k)
    case 0
    then show ?thesis
      using assms by (simp add: geometric_matrix_sum.simps add_dot_square [where n = n])
  next
    case (Suc m)
    have "geometric_matrix_sum C (int (Suc (Suc k)))
            = add_dot C (Matrix (power_sum C (Suc k)))"
      using Suc.IH Suc by (subst geometric_matrix_sum.simps) simp
    also have "\<dots> = Inr (madd C (matmul C (power_sum C (Suc k))))"
      using assms by (simp only: add_dot_square [where n = n] is_square_power_sum)
    finally show ?thesis
      using assms by (simp only: power_sum_step [where n = n])
  qed
qed

text \<open>
  Claim C1. For every square matrix \<open>C\<close> and every \<open>n_power \<ge> 1\<close>,
  \<open>geometric_matrix_sum C n_power\<close> returns the sum of the powers
  \<open>C + C\<^sup>2 + \<dots> + C\<^sup>n\<close> with \<open>n = n_power\<close>; at \<open>n_power = 1\<close> it returns \<open>C\<close>, and for
  \<open>n_power > 1\<close> it returns \<open>C\<close> plus the product of \<open>C\<close> with the result at \<open>n_power - 1\<close>.
\<close>

theorem geometric_matrix_sum_spec:
  assumes "is_square n C" and "1 \<le> n_power"
  shows "geometric_matrix_sum C n_power = Inr (power_sum C (nat n_power))
       \<and> geometric_matrix_sum C 1 = Inr C
       \<and> (1 < n_power \<longrightarrow>
            (\<exists>S. geometric_matrix_sum C (n_power - 1) = Inr S
                \<and> geometric_matrix_sum C n_power = Inr (madd C (matmul C S))))"
proof -
  define k where "k = nat n_power - 1"
  have k: "n_power = int (Suc k)" and k': "nat n_power = Suc k"
    using assms(2) by (simp_all add: k_def)
  have main: "geometric_matrix_sum C n_power = Inr (power_sum C (nat n_power))"
    using geometric_matrix_sum_power_sum [OF assms(1), of k] by (simp only: k k' nat_int)
  have step: "\<exists>S. geometric_matrix_sum C (n_power - 1) = Inr S
                \<and> geometric_matrix_sum C n_power = Inr (madd C (matmul C S))"
    if "1 < n_power"
  proof -
    from that k obtain m where m: "k = Suc m" by (cases k) auto
    have prev: "geometric_matrix_sum C (n_power - 1) = Inr (power_sum C (Suc m))"
      using geometric_matrix_sum_power_sum [OF assms(1), of m] k m by simp
    have "geometric_matrix_sum C n_power = Inr (power_sum C (Suc (Suc m)))"
      using main by (simp only: k' m)
    then have "geometric_matrix_sum C n_power = Inr (madd C (matmul C (power_sum C (Suc m))))"
      by (simp only: power_sum_step [OF assms(1), of m])
    with prev show ?thesis by blast
  qed
  show ?thesis
    using main geometric_matrix_sum_one step by blast
qed


theorem geometric_matrix_sum_spec_witness:
  "is_square 2 [[1, 2], [3, 4]] \<and> (1::int) \<le> 3
   \<and> geometric_matrix_sum [[1, 2], [3, 4]] 3 = Inr [[45, 66], [99, 144]]
   \<and> power_sum [[1, 2], [3, 4]] (nat 3) = [[45, 66], [99, 144]]
   \<and> geometric_matrix_sum [[1, 2], [3, 4]] 1 = Inr [[1, 2], [3, 4]]
   \<and> geometric_matrix_sum [[1, 2], [3, 4]] (3 - 1) = Inr [[8, 12], [18, 26]]
   \<and> madd [[1, 2], [3, 4]] (matmul [[1, 2], [3, 4]] [[8, 12], [18, 26]])
        = [[45, 66], [99, 144]]"
  using geometric_matrix_sum_spec [of 2 "[[1, 2], [3, 4]]" 3]
  by (simp add: is_square_def geometric_matrix_sum.simps add_dot_def dot_def nrows_def
      ncols_def matmul_def madd_def eval_nat_numeral)

text \<open>
  Claim C2 states \<open>geometric_matrix_sum C n = S + C \<cdot> S\<close> with
  \<open>S = geometric_matrix_sum C (n - 1)\<close> for every \<open>n > 1\<close>. At the one-by-one matrix \<open>[[1]]\<close>
  and \<open>n = 3\<close> the function returns \<open>[[3]]\<close>, while \<open>S = [[2]]\<close> and \<open>S + C \<cdot> S = [[4]]\<close>.
\<close>

theorem geometric_matrix_sum_doubling_counterexample:
  "geometric_matrix_sum [[1]] (3 - 1) = Inr [[2]]
   \<and> geometric_matrix_sum [[1]] 3 = Inr [[3]]
   \<and> madd [[2]] (matmul [[1]] [[2]]) = [[4]]
   \<and> geometric_matrix_sum [[1]] 3 \<noteq> Inr (madd [[2]] (matmul [[1]] [[2]]))"
  by (simp add: geometric_matrix_sum.simps add_dot_def dot_def nrows_def
      ncols_def matmul_def madd_def)

text \<open>
  Claim C2, amended. For every square matrix \<open>C\<close> and every \<open>n > 1\<close>,
  \<open>geometric_matrix_sum C n\<close> equals \<open>geometric_matrix_sum C (n - 1)\<close> plus the single power
  \<open>C\<^sup>n\<close>, elementwise; the recurrence of the claim, with \<open>C \<cdot> geometric_matrix_sum C (n - 1)\<close>
  as the increment, holds at \<open>n = 2\<close>.
\<close>

theorem geometric_matrix_sum_increment:
  assumes "is_square n C" and "1 < n_power"
  shows "\<exists>S. geometric_matrix_sum C (n_power - 1) = Inr S
           \<and> geometric_matrix_sum C n_power = Inr (madd S (matrix_power C (nat n_power)))
           \<and> (n_power = 2 \<longrightarrow> geometric_matrix_sum C n_power = Inr (madd S (matmul C S)))"
proof -
  define m where "m = nat n_power - 2"
  have m: "n_power = int (Suc (Suc m))" "nat n_power = Suc (Suc m)"
       "n_power - 1 = int (Suc m)"
    using assms(2) by (simp_all add: m_def)
  have prev: "geometric_matrix_sum C (n_power - 1) = Inr (power_sum C (Suc m))"
    using geometric_matrix_sum_power_sum [OF assms(1), of m] by (simp only: m(3))
  have cur: "geometric_matrix_sum C n_power
               = Inr (madd (power_sum C (Suc m)) (matrix_power C (nat n_power)))"
    using geometric_matrix_sum_power_sum [OF assms(1), of "Suc m"]
    by (simp only: m(2) m(1) [symmetric] power_sum.simps)
  have two: "geometric_matrix_sum C n_power
               = Inr (madd (power_sum C (Suc m)) (matmul C (power_sum C (Suc m))))"
    if "n_power = 2"
  proof -
    from that m(1) have "m = 0" by simp
    with cur m(2) show ?thesis by simp
  qed
  show ?thesis using prev cur two by blast
qed

theorem geometric_matrix_sum_increment_witness:
  "is_square 1 [[1]] \<and> (1::int) < 3
   \<and> geometric_matrix_sum [[1]] (3 - 1) = Inr [[2]]
   \<and> matrix_power [[1]] (nat 3) = [[1]]
   \<and> geometric_matrix_sum [[1]] 3 = Inr (madd [[2]] [[1]])"
  using geometric_matrix_sum_increment [of 1 "[[1]]" 3]
  by (simp add: is_square_def geometric_matrix_sum.simps add_dot_def dot_def nrows_def
      ncols_def matmul_def madd_def eval_nat_numeral)

section \<open>\<^verbatim>\<open>groups_to_bool\<close>\<close>

text \<open>
  \<^verbatim>\<open>
  def groups_to_bool(adata, groups, groupby=None):
      groups = [groups] if isinstance(groups, str) else groups
      if isinstance(groups, (list, tuple, np.ndarray, np.record)):
          groupby = (
              groupby
              if groupby in adata.obs.keys()
              else "clusters"
              if "clusters" in adata.obs.keys()
              else "louvain"
              if "louvain" in adata.obs.keys()
              else None
          )
          if groupby is not None:
              groups = np.array([key in groups for key in adata.obs[groupby]])
          else:
              raise ValueError("groupby attribute not valid.")
      return groups
  \<close>
  The container is external; the function reads only its per-cell attribute table
  \<^verbatim>\<open>adata.obs\<close>, a table of named columns with one value per cell. It is a map from
  column names to columns. The argument \<^verbatim>\<open>groups\<close> is a single name, a sequence of names,
  or any other value (which the function hands back untouched); \<^verbatim>\<open>groupby\<close> is a name
  or \<^verbatim>\<open>None\<close>.
\<close>

record anndata =
  obs :: "string \<rightharpoonup> string list"

datatype groups_arg = Name string | Names "string list" | Other

datatype groups_result = Mask "bool list" | Unchanged

definition obs_has_key :: "anndata \<Rightarrow> string option \<Rightarrow> bool" where
  \<comment> \<open>\<^verbatim>\<open>groupby in adata.obs.keys()\<close>; \<^verbatim>\<open>None\<close> is never a key.\<close>
  "obs_has_key adata k = (case k of None \<Rightarrow> False | Some s \<Rightarrow> obs adata s \<noteq> None)"

definition resolve_groupby :: "anndata \<Rightarrow> string option \<Rightarrow> string option" where
  "resolve_groupby adata groupby =
     (if obs_has_key adata groupby then groupby
      else if obs_has_key adata (Some ''clusters'') then Some ''clusters''
      else if obs_has_key adata (Some ''louvain'') then Some ''louvain''
      else None)"

definition groups_to_bool :: "anndata \<Rightarrow> groups_arg \<Rightarrow> string option \<Rightarrow> error + groups_result" where
  "groups_to_bool adata groups groupby =
     (let groups = (case groups of Name g \<Rightarrow> Names [g] | _ \<Rightarrow> groups) in
      case groups of
        Names gs \<Rightarrow>
          (case resolve_groupby adata groupby of
             Some key \<Rightarrow> Inr (Mask (map (\<lambda>v. v \<in> set gs) (the (obs adata key))))
           | None \<Rightarrow> Inl ValueError)
      | _ \<Rightarrow> Inr Unchanged)"

text \<open>The mask the claim describes: one boolean per cell of a column, true where the
  cell's value is one of the given group names.\<close>

definition is_group_mask :: "string list \<Rightarrow> string list \<Rightarrow> bool list \<Rightarrow> bool" where
  "is_group_mask gs col m =
     (length m = length col \<and> list_all (\<lambda>i. m ! i = (col ! i \<in> set gs)) [0..<length col])"

lemma is_group_mask_map: "is_group_mask gs col (map (\<lambda>v. v \<in> set gs) col)"
  by (simp add: is_group_mask_def list_all_iff)

lemma resolve_groupby_Some:
  "resolve_groupby adata groupby = Some key \<Longrightarrow> \<exists>col. obs adata key = Some col"
  by (auto simp: resolve_groupby_def obs_has_key_def split: if_splits option.splits)

text \<open>
  Claim C8. For every container and every non-empty list of group names,
  \<open>groups_to_bool\<close> raises an error exactly when the caller's \<open>groupby\<close> is not a key of
  the per-cell table and neither \<open>clusters\<close> nor \<open>louvain\<close> is one. Otherwise it returns a
  mask over the cells of the resolved column, true exactly at the cells whose value is in
  the list; the resolved column is the caller's key when present, else \<open>clusters\<close> when
  present, else \<open>louvain\<close>.
\<close>

theorem groups_to_bool_spec:
  assumes "gs \<noteq> []"
  shows "(isl (groups_to_bool adata (Names gs) groupby) \<longleftrightarrow>
            \<not> obs_has_key adata groupby \<and> obs adata ''clusters'' = None
            \<and> obs adata ''louvain'' = None)
       \<and> (\<forall>key col. groupby = Some key \<and> obs adata key = Some col \<longrightarrow>
            (\<exists>m. groups_to_bool adata (Names gs) groupby = Inr (Mask m)
                 \<and> is_group_mask gs col m))
       \<and> (\<forall>col. \<not> obs_has_key adata groupby \<and> obs adata ''clusters'' = Some col \<longrightarrow>
            (\<exists>m. groups_to_bool adata (Names gs) groupby = Inr (Mask m)
                 \<and> is_group_mask gs col m))
       \<and> (\<forall>col. \<not> obs_has_key adata groupby \<and> obs adata ''clusters'' = None
              \<and> obs adata ''louvain'' = Some col \<longrightarrow>
            (\<exists>m. groups_to_bool adata (Names gs) groupby = Inr (Mask m)
                 \<and> is_group_mask gs col m))"
proof (intro conjI allI impI)
  show "isl (groups_to_bool adata (Names gs) groupby) \<longleftrightarrow>
          \<not> obs_has_key adata groupby \<and> obs adata ''clusters'' = None
          \<and> obs adata ''louvain'' = None"
    by (auto simp: groups_to_bool_def resolve_groupby_def obs_has_key_def
             split: option.splits)
next
  fix key col
  assume "groupby = Some key \<and> obs adata key = Some col"
  then have "resolve_groupby adata groupby = Some key"
    by (simp add: resolve_groupby_def obs_has_key_def)
  with \<open>groupby = Some key \<and> obs adata key = Some col\<close>
  show "\<exists>m. groups_to_bool adata (Names gs) groupby = Inr (Mask m) \<and> is_group_mask gs col m"
    by (simp add: groups_to_bool_def is_group_mask_map)
next
  fix col
  assume a: "\<not> obs_has_key adata groupby \<and> obs adata ''clusters'' = Some col"
  then have "resolve_groupby adata groupby = Some ''clusters''"
    by (simp add: resolve_groupby_def obs_has_key_def)
  with a show "\<exists>m. groups_to_bool adata (Names gs) groupby = Inr (Mask m)
                  \<and> is_group_mask gs col m"
    by (simp add: groups_to_bool_def is_group_mask_map)
next
  fix col
  assume a: "\<not> obs_has_key adata groupby \<and> obs adata ''clusters'' = None
             \<and> obs adata ''louvain'' = Some col"
  then have "resolve_groupby adata groupby = Some ''louvain''"
    by (simp add: resolve_groupby_def obs_has_key_def)
  with a show "\<exists>m. groups_to_bool adata (Names gs) groupby = Inr (Mask m)
                  \<and> is_group_mask gs col m"
    by (simp add: groups_to_bool_def is_group_mask_map)
qed

theorem groups_to_bool_spec_witness:
  "[''a''] \<noteq> []
   \<and> \<not> isl (groups_to_bool \<lparr>obs = [''louvain'' \<mapsto> [''a'', ''b'', ''a'']]\<rparr>
              (Names [''a'']) (Some ''cell_type''))
   \<and> (\<exists>m. groups_to_bool \<lparr>obs = [''louvain'' \<mapsto> [''a'', ''b'', ''a'']]\<rparr>
              (Names [''a'']) (Some ''cell_type'') = Inr (Mask m)
          \<and> is_group_mask [''a''] [''a'', ''b'', ''a''] m)
   \<and> groups_to_bool \<lparr>obs = [''louvain'' \<mapsto> [''a'', ''b'', ''a'']]\<rparr>
              (Names [''a'']) (Some ''cell_type'') = Inr (Mask [True, False, True])
   \<and> isl (groups_to_bool \<lparr>obs = Map.empty\<rparr> (Names [''a'']) (Some ''cell_type''))"
  using groups_to_bool_spec
          [of "[''a'']" "\<lparr>obs = [''louvain'' \<mapsto> [''a'', ''b'', ''a'']]\<rparr>" "Some ''cell_type''"]
        groups_to_bool_spec [of "[''a'']" "\<lparr>obs = Map.empty\<rparr>" "Some ''cell_type''"]
  by (simp add: obs_has_key_def groups_to_bool_def resolve_groupby_def)

end
